theory Spec2Isabelle
  imports Complex_Main "HOL-Library.Multiset"
begin

section \<open>Platform model: strings and the URL class\<close>

text \<open>
  JavaScript strings are modelled as HOL strings. \<open>toLowerCase\<close> maps the letters
  \<open>A\<close>..\<open>Z\<close>; \<open>split_on\<close> is \<open>String.prototype.split\<close> for a one-character
  separator (the empty string splits into one empty piece); \<open>join\<close> is
  \<open>Array.prototype.join\<close>; \<open>endsWith\<close> is \<open>String.prototype.endsWith\<close>.
  Numbers that the code compares or sorts (confidences, thresholds) are real numbers:
  rounding of IEEE doubles and the value NaN are not part of the model.
\<close>

definition toLowerCase_char :: "char \<Rightarrow> char" where
  "toLowerCase_char c =
     (let n = (of_char c :: nat) in if 65 \<le> n \<and> n \<le> 90 then char_of (n + 32) else c)"

definition toLowerCase :: "string \<Rightarrow> string" where
  "toLowerCase s = map toLowerCase_char s"

fun split_on :: "char \<Rightarrow> string \<Rightarrow> string list" where
  "split_on c [] = [[]]"
| "split_on c (x # xs) =
     (if x = c then [] # split_on c xs
      else (case split_on c xs of [] \<Rightarrow> [[x]] | w # ws \<Rightarrow> (x # w) # ws))"

fun join :: "string \<Rightarrow> string list \<Rightarrow> string" where
  "join sep [] = []"
| "join sep [x] = x"
| "join sep (x # y # ys) = x @ sep @ join sep (y # ys)"


text \<open>
  The platform class \<open>URL\<close> is not code of the repository. A parsed URL is a record of
  the components the code reads: \<open>origin\<close>, \<open>pathname\<close>, and the pieces of the
  serialisation \<open>toString\<close>: everything in front of the path (\<open>prefix\<close>: scheme and
  authority), the path, the query and the fragment. The constructor \<open>new URL(s)\<close> is a
  parameter \<open>newURL\<close> of every function that calls it; \<open>None\<close> is the \<open>TypeError\<close> it
  throws on input that is not an absolute URL. Assigning \<open>hash = ""\<close> removes the fragment.
\<close>

record url =
  origin :: string
  prefix :: string
  pathname :: string
  query :: "string option"
  fragment :: "string option"

type_synonym URL_ctor = "string \<Rightarrow> url option"

definition toString :: "url \<Rightarrow> string" where
  "toString u =
     prefix u @ pathname u
       @ (case query u of None \<Rightarrow> [] | Some q \<Rightarrow> CHR ''?'' # q)
       @ (case fragment u of None \<Rightarrow> [] | Some f \<Rightarrow> CHR ''#'' # f)"


text \<open>
  \<open>parseURL\<close> is an instance of the constructor for evaluating the functions on concrete
  input. It agrees with the platform on \<open>http\<close> and \<open>https\<close> URLs that are already in
  serialised form (lower-case scheme and host, no credentials, no port, no dot segments,
  no characters that would be percent-encoded); empty path segments are kept, and an
  empty path becomes \<open>/\<close>. On a string that does not start with one of the two schemes
  it is \<open>None\<close>, as the platform throws on a relative reference and on text that is not
  a URL. It is applied below to inputs of these kinds only.
\<close>

fun break_at :: "char \<Rightarrow> string \<Rightarrow> string \<times> string option" where
  "break_at c [] = ([], None)"
| "break_at c (x # xs) =
     (if x = c then ([], Some xs)
      else (case break_at c xs of (a, b) \<Rightarrow> (x # a, b)))"

definition parseAfterScheme :: "string \<Rightarrow> string \<Rightarrow> url option" where
  "parseAfterScheme scheme rest =
     (case break_at CHR ''#'' rest of (beforeHash, frag) \<Rightarrow>
      case break_at CHR ''?'' beforeHash of (beforeQuery, qry) \<Rightarrow>
        let host = takeWhile (\<lambda>c. c \<noteq> CHR ''/'') beforeQuery;
            path = dropWhile (\<lambda>c. c \<noteq> CHR ''/'') beforeQuery
        in if host = [] then None
           else Some \<lparr>origin = scheme @ host, prefix = scheme @ host,
                      pathname = (if path = [] then ''/'' else path),
                      query = qry, fragment = frag\<rparr>)"

definition parseURL :: URL_ctor where
  "parseURL s =
     (if take 8 s = ''https://'' then parseAfterScheme ''https://'' (drop 8 s)
      else if take 7 s = ''http://'' then parseAfterScheme ''http://'' (drop 7 s)
      else None)"

section \<open>link-fixer.ts\<close>

subsection \<open>Data (types.ts)\<close>

record CheckResult =
  statusCode :: "int option"
  finalUrl :: "string option"
  redirectChain :: "string list"
  error :: "string option"

record LinkCheckResult = CheckResult +
  sourcePage :: string
  href :: string
  resolvedUrl :: string
  isRedirect :: bool

datatype fix_method = FuzzyMatch | RedirectTarget | PathSimilarity | Manual

text \<open>The field \<open>method\<close> of \<open>LinkFix\<close> is named \<open>fixMethod\<close>, the fields \<open>from\<close>, \<open>to\<close> and
  \<open>statusCode\<close> of \<open>RedirectEntry\<close> are \<open>from_path\<close>, \<open>to_path\<close> and \<open>redirectStatus\<close>.\<close>

record LinkFix =
  originalHref :: string
  suggestedHref :: string
  confidence :: real
  fixMethod :: fix_method
  sourcePages :: "string list"

record RedirectEntry =
  from_path :: string
  to_path :: string
  redirectStatus :: int

record FixOptions =
  minConfidence :: "real option"
  maxSuggestions :: "real option"

subsection \<open>levenshtein\<close>

text \<open>
  The source fills a matrix with one row per character of \<open>b\<close> and one column per
  character of \<open>a\<close>. \<open>levRow\<close> computes the cells \<open>matrix[i][j..]\<close> of one row from the
  previous row (its cells from column \<open>j - 1\<close> on) and the cell to the left; \<open>levRows\<close>
  runs over the rows; the result is the last cell of the last row.
\<close>

fun levRow :: "char \<Rightarrow> string \<Rightarrow> nat list \<Rightarrow> nat \<Rightarrow> nat list" where
  "levRow bc (ac # as) (diag # up # prev) left =
     (let cell = (if bc = ac then diag else min (diag + 1) (min (left + 1) (up + 1)))
      in cell # levRow bc as (up # prev) cell)"
| "levRow bc as prev left = []"

fun levRows :: "string \<Rightarrow> nat \<Rightarrow> string \<Rightarrow> nat list \<Rightarrow> nat list" where
  "levRows a i [] prev = prev"
| "levRows a i (bc # bs) prev = levRows a (Suc i) bs (i # levRow bc a prev i)"

definition levenshtein :: "string \<Rightarrow> string \<Rightarrow> nat" where
  "levenshtein a b = last (levRows a 1 b [0..<Suc (length a)])"

subsection \<open>pathSegments, pathSimilarity, getPathname\<close>

definition segmentsOf :: "string \<Rightarrow> string list" where
  "segmentsOf s = map toLowerCase (filter (\<lambda>s. length s > 0) (split_on CHR ''/'' s))"

definition pathSegments :: "URL_ctor \<Rightarrow> string \<Rightarrow> string list" where
  "pathSegments newURL u =
     (case newURL u of
        Some parsed \<Rightarrow> segmentsOf (pathname parsed)
      | None \<Rightarrow> segmentsOf u)"

definition pathSimilarity :: "URL_ctor \<Rightarrow> string \<Rightarrow> string \<Rightarrow> real" where
  "pathSimilarity newURL urlA urlB =
     (let segA = pathSegments newURL urlA;
          segB = pathSegments newURL urlB
      in if length segA = 0 \<and> length segB = 0 then 1
         else if length segA = 0 \<or> length segB = 0 then 0
         else
           let maxLen = max (length segA) (length segB);
               matches = length (filter (\<lambda>seg. seg \<in> set segB) segA);
               pathA = join ''/'' segA;
               pathB = join ''/'' segB;
               maxPathLen = max (length pathA) (length pathB);
               editDistance = levenshtein pathA pathB;
               editSimilarity =
                 (if maxPathLen > 0 then 1 - real editDistance / real maxPathLen else 1);
               segmentSimilarity = real matches / real maxLen
           in segmentSimilarity * 0.6 + editSimilarity * 0.4)"

definition getPathname :: "URL_ctor \<Rightarrow> string \<Rightarrow> string" where
  "getPathname newURL u = (case newURL u of Some parsed \<Rightarrow> pathname parsed | None \<Rightarrow> u)"

subsection \<open>computeFixes\<close>

text \<open>
  \<open>brokenByUrl\<close> is a \<open>Map\<close>, which iterates in the order in which its keys were first
  inserted: an association list. \<open>addSourcePage\<close> is the body of the first loop, the
  \<open>get\<close>, \<open>push\<close> and \<open>set\<close> for one link. \<open>redirectTargets\<close> is only looked up by key.
  The conditions \<open>if (link.finalUrl)\<close> and \<open>if (redirectTarget)\<close> test truthiness:
  \<open>null\<close> and the empty string fail them.
\<close>

fun addSourcePage :: "string \<Rightarrow> string \<Rightarrow> (string \<times> string list) list
    \<Rightarrow> (string \<times> string list) list" where
  "addSourcePage h p [] = [(h, [p])]"
| "addSourcePage h p ((k, ps) # m) =
     (if k = h then (k, ps @ [p]) # m else (k, ps) # addSourcePage h p m)"

definition brokenByUrl :: "LinkCheckResult list \<Rightarrow> (string \<times> string list) list" where
  "brokenByUrl brokenLinks =
     foldl (\<lambda>m link. addSourcePage (href link) (sourcePage link) m) [] brokenLinks"

definition redirectTargets :: "LinkCheckResult list \<Rightarrow> (string \<rightharpoonup> string)" where
  "redirectTargets redirectLinks =
     foldl (\<lambda>m link. case finalUrl link of
                        Some f \<Rightarrow> if f \<noteq> [] then m(href link \<mapsto> f) else m
                      | None \<Rightarrow> m)
           Map.empty redirectLinks"

definition bestMatch :: "URL_ctor \<Rightarrow> string \<Rightarrow> string list \<Rightarrow> (string \<times> real) option" where
  "bestMatch newURL brokenUrl knownGoodUrls =
     foldl (\<lambda>best goodUrl.
              let score = pathSimilarity newURL brokenUrl goodUrl
              in if score > (case best of Some (u, s) \<Rightarrow> s | None \<Rightarrow> 0)
                 then Some (goodUrl, score) else best)
           None knownGoodUrls"

definition redirectFix :: "real \<Rightarrow> (string \<rightharpoonup> string) \<Rightarrow> string \<times> string list
    \<Rightarrow> LinkFix option" where
  "redirectFix minC targets entry =
     (case entry of (brokenUrl, srcPages) \<Rightarrow>
        (case targets brokenUrl of
           Some redirectTarget \<Rightarrow>
             if redirectTarget \<noteq> [] \<and> 0.95 \<ge> minC
             then Some \<lparr>originalHref = brokenUrl, suggestedHref = redirectTarget,
                        confidence = 0.95, fixMethod = RedirectTarget,
                        sourcePages = srcPages\<rparr>
             else None
         | None \<Rightarrow> None))"

definition similarityFix :: "URL_ctor \<Rightarrow> real \<Rightarrow> string list \<Rightarrow> string \<times> string list
    \<Rightarrow> LinkFix option" where
  "similarityFix newURL minC knownGoodUrls entry =
     (case entry of (brokenUrl, srcPages) \<Rightarrow>
        (case bestMatch newURL brokenUrl knownGoodUrls of
           Some (u, score) \<Rightarrow>
             if score \<ge> minC
             then
               let brokenSegs = pathSegments newURL brokenUrl;
                   matchSegs = pathSegments newURL u;
                   segOverlap = length (filter (\<lambda>s. s \<in> set matchSegs) brokenSegs)
               in Some \<lparr>originalHref = brokenUrl, suggestedHref = u,
                          confidence = score,
                          fixMethod = (if segOverlap > 0 then PathSimilarity else FuzzyMatch),
                          sourcePages = srcPages\<rparr>
             else None
         | None \<Rightarrow> None))"

text \<open>One iteration of the main loop: the fix pushed for one entry of the map, if any.\<close>

definition fixFor :: "URL_ctor \<Rightarrow> real \<Rightarrow> string list \<Rightarrow> (string \<rightharpoonup> string)
    \<Rightarrow> string \<times> string list \<Rightarrow> LinkFix option" where
  "fixFor newURL minC knownGoodUrls targets entry =
     (case redirectFix minC targets entry of
        Some fix \<Rightarrow> Some fix
      | None \<Rightarrow> similarityFix newURL minC knownGoodUrls entry)"

text \<open>
  \<open>Array.prototype.sort\<close> is stable; with the comparator \<open>b.confidence - a.confidence\<close>
  it is the stable sort by descending confidence.
\<close>

definition computeFixes :: "URL_ctor \<Rightarrow> LinkCheckResult list \<Rightarrow> string list
    \<Rightarrow> LinkCheckResult list \<Rightarrow> FixOptions \<Rightarrow> LinkFix list" where
  "computeFixes newURL brokenLinks knownGoodUrls redirectLinks options =
     (let minC = (case minConfidence options of Some c \<Rightarrow> c | None \<Rightarrow> 0.4);
          targets = redirectTargets redirectLinks;
          fixes = List.map_filter (fixFor newURL minC knownGoodUrls targets)
                    (brokenByUrl brokenLinks)
      in sort_key (\<lambda>fix. - confidence fix) fixes)"

subsection \<open>fixesToRedirects\<close>

text \<open>The threshold is an optional parameter with default \<open>0.6\<close>.\<close>

definition fixesToRedirects :: "URL_ctor \<Rightarrow> LinkFix list \<Rightarrow> real option \<Rightarrow> RedirectEntry list" where
  "fixesToRedirects newURL fixes minConf =
     (let minC = (case minConf of Some c \<Rightarrow> c | None \<Rightarrow> 0.6)
      in map (\<lambda>fix. \<lparr>from_path = getPathname newURL (originalHref fix),
                      to_path = getPathname newURL (suggestedHref fix),
                      redirectStatus = 301\<rparr>)
           (filter (\<lambda>fix. confidence fix \<ge> minC) fixes))"

subsection \<open>Auxiliary notions for stating the properties\<close>

text \<open>
  \<open>firstIndex xs x\<close> is the position of the first occurrence of \<open>x\<close> in \<open>xs\<close>
  (\<open>length xs\<close> when there is none). \<open>brokenLink\<close> and \<open>redirectLink\<close> build the results
  that the repository's tests use as fixtures.
\<close>

fun firstIndex :: "'a list \<Rightarrow> 'a \<Rightarrow> nat" where
  "firstIndex [] x = 0"
| "firstIndex (y # ys) x = (if x = y then 0 else Suc (firstIndex ys x))"

definition brokenLink :: "string \<Rightarrow> string \<Rightarrow> LinkCheckResult" where
  "brokenLink h page =
     \<lparr>statusCode = Some 404, finalUrl = None, redirectChain = [], error = None,
      sourcePage = page, href = h, resolvedUrl = h, isRedirect = False\<rparr>"

definition redirectLink :: "string \<Rightarrow> string option \<Rightarrow> LinkCheckResult" where
  "redirectLink h final =
     \<lparr>statusCode = Some 301, finalUrl = final, redirectChain = [h], error = None,
      sourcePage = ''https://example.com/page'', href = h, resolvedUrl = h,
      isRedirect = True\<rparr>"

section \<open>link-scanner.ts\<close>

subsection \<open>normalizeUrl, isInternalUrl\<close>



subsection \<open>checkUrl\<close>

text \<open>
  The network is a parameter: \<open>fetch timeout i u\<close> is the outcome of the request that the
  \<open>i\<close>-th iteration of the loop sends to \<open>u\<close>, either the message of the error it throws
  (network failure, or the abort after \<open>timeout\<close>) or the response, of which the code
  reads the status and the \<open>location\<close> header. \<open>resolve loc u\<close> is
  \<open>new URL(loc, u).toString()\<close>, or the message of the \<open>TypeError\<close> it throws. Both
  exceptions reach the outer \<open>catch\<close>, which returns a result; by then the current URL
  has been pushed on the chain if the failing step was the resolution.
\<close>

record response =
  status :: int
  location :: "string option"

type_synonym fetcher = "nat \<Rightarrow> nat \<Rightarrow> string \<Rightarrow> string + response"
type_synonym resolver = "string \<Rightarrow> string \<Rightarrow> string + string"

definition failed :: "string list \<Rightarrow> string \<Rightarrow> CheckResult" where
  "failed chain message =
     \<lparr>statusCode = None, finalUrl = None, redirectChain = chain, error = Some message\<rparr>"

definition answered :: "int \<Rightarrow> string \<Rightarrow> string list \<Rightarrow> CheckResult" where
  "answered st currentUrl chain =
     \<lparr>statusCode = Some st,
      finalUrl = (if length chain > 0 then Some currentUrl else None),
      redirectChain = chain, error = None\<rparr>"

function checkLoop :: "fetcher \<Rightarrow> resolver \<Rightarrow> nat \<Rightarrow> bool \<Rightarrow> nat \<Rightarrow> nat \<Rightarrow> string
    \<Rightarrow> string list \<Rightarrow> CheckResult" where
  "checkLoop fetch resolve timeout followRedirects maxRedirects i currentUrl chain =
     (if i \<le> maxRedirects then
        (case fetch timeout i currentUrl of
           Inl message \<Rightarrow> failed chain message
         | Inr resp \<Rightarrow>
             if status resp \<ge> 300 \<and> status resp < 400 \<and> followRedirects then
               (case location resp of
                  None \<Rightarrow> answered (status resp) currentUrl chain
                | Some loc \<Rightarrow>
                    if loc = [] then answered (status resp) currentUrl chain
                    else
                      (case resolve loc currentUrl of
                         Inl message \<Rightarrow> failed (chain @ [currentUrl]) message
                       | Inr next \<Rightarrow>
                           checkLoop fetch resolve timeout followRedirects maxRedirects
                             (Suc i) next (chain @ [currentUrl])))
             else answered (status resp) currentUrl chain)
      else
        \<lparr>statusCode = None, finalUrl = Some currentUrl, redirectChain = chain,
         error = Some ''Too many redirects''\<rparr>)"
  by pat_completeness auto
termination
  by (relation "measure (\<lambda>(fetch, resolve, timeout, followRedirects, maxRedirects, i, u, chain).
        Suc maxRedirects - i)") auto

declare checkLoop.simps [simp del]

definition checkUrl :: "fetcher \<Rightarrow> resolver \<Rightarrow> string \<Rightarrow> nat \<Rightarrow> bool \<Rightarrow> CheckResult" where
  "checkUrl fetch resolve u timeout followRedirects =
     checkLoop fetch resolve timeout followRedirects (if followRedirects then 10 else 0) 0 u []"

text \<open>
  \<open>redirectHops fetch resolve timeout i u n\<close>: from the \<open>i\<close>-th request on, starting at
  \<open>u\<close>, each of the next \<open>n\<close> requests is answered by a redirect that the check can
  follow: a status in \<open>[300, 400)\<close> with a non-empty \<open>location\<close> that resolves.
\<close>

fun redirectHops :: "fetcher \<Rightarrow> resolver \<Rightarrow> nat \<Rightarrow> nat \<Rightarrow> string \<Rightarrow> nat \<Rightarrow> bool" where
  "redirectHops fetch resolve timeout i u 0 = True"
| "redirectHops fetch resolve timeout i u (Suc n) =
     (case fetch timeout i u of
        Inl message \<Rightarrow> False
      | Inr resp \<Rightarrow>
          status resp \<ge> 300 \<and> status resp < 400 \<and>
          (case location resp of
             None \<Rightarrow> False
           | Some loc \<Rightarrow>
               loc \<noteq> [] \<and>
               (case resolve loc u of
                  Inl message \<Rightarrow> False
                | Inr next \<Rightarrow> redirectHops fetch resolve timeout (Suc i) next n)))"

text \<open>A server that answers every request with a redirect to the same path plus \<open>x\<close>.\<close>

definition endlessRedirects :: fetcher where
  "endlessRedirects timeout i u = Inr \<lparr>status = 302, location = Some (u @ ''x'')\<rparr>"

definition absoluteLocation :: resolver where
  "absoluteLocation loc u = Inr loc"

subsection \<open>asyncPool\<close>

text \<open>
  Promises are modelled in virtual time. A unit of work \<open>fn item\<close> is the pair of the
  time it takes to settle and how it settles: fulfilled with a result, or rejected with
  an error. An entry of the set \<open>executing\<close> is the promise \<open>wrapped\<close> of one started item:
  the time at which it settles, and its outcome. The set iterates in insertion order.
  When a promise fulfils, its \<open>then\<close> callbacks push the result and delete the promise
  from \<open>executing\<close>; when it rejects, neither callback runs, so nothing is pushed and the
  rejected promise stays in the set. Promises that settle at the same time settle in
  insertion order. Every promise settles, and \<open>fn\<close> does not throw synchronously.
  The result of \<open>asyncPool\<close> is \<open>Inr results\<close> when it returns and \<open>Inl e\<close> when
  the promise it returns rejects with \<open>e\<close>.
\<close>

datatype 'r settled = Fulfilled 'r | Rejected string

record 'r task =
  finishAt :: nat
  outcome :: "'r settled"

fun isFulfilled :: "'r settled \<Rightarrow> bool" where
  "isFulfilled (Fulfilled v) = True"
| "isFulfilled (Rejected e) = False"

fun fulfilledValues :: "'r task list \<Rightarrow> 'r list" where
  "fulfilledValues [] = []"
| "fulfilledValues (k # ks) =
     (case outcome k of
        Fulfilled v \<Rightarrow> v # fulfilledValues ks
      | Rejected e \<Rightarrow> fulfilledValues ks)"

text \<open>The promise of a non-empty list that settles first.\<close>

fun firstSettled :: "'r task \<Rightarrow> 'r task list \<Rightarrow> 'r task" where
  "firstSettled k [] = k"
| "firstSettled k (k' # ks) = firstSettled (if finishAt k' < finishAt k then k' else k) ks"

text \<open>
  What has happened by time \<open>t\<close>: the promises that fulfil by then have pushed their
  results, in the order in which they settled, and have left the set.
\<close>

definition settledBy :: "nat \<Rightarrow> 'r task \<Rightarrow> bool" where
  "settledBy t k = (finishAt k \<le> t \<and> isFulfilled (outcome k))"

definition settleUntil :: "nat \<Rightarrow> 'r task list \<Rightarrow> 'r list \<Rightarrow> 'r task list \<times> 'r list" where
  "settleUntil t executing results =
     (filter (\<lambda>k. \<not> settledBy t k) executing,
      results @ fulfilledValues (sort_key finishAt (filter (settledBy t) executing)))"

text \<open>\<open>await Promise.all(executing)\<close> followed by \<open>return results\<close>.\<close>

definition awaitAll :: "'r task list \<Rightarrow> 'r list \<Rightarrow> string + 'r list" where
  "awaitAll executing results =
     (case filter (\<lambda>k. \<not> isFulfilled (outcome k)) executing of
        [] \<Rightarrow> Inr (results @ fulfilledValues (sort_key finishAt executing))
      | k # ks \<Rightarrow>
          (case outcome (firstSettled k ks) of
             Rejected e \<Rightarrow> Inl e
           | Fulfilled v \<Rightarrow> Inr (results @ fulfilledValues (sort_key finishAt executing))))"

text \<open>
  The loop over the items. \<open>await Promise.race(executing)\<close> resumes when the first promise
  of the set settles; if that promise rejected, the \<open>await\<close> throws and \<open>asyncPool\<close>
  rejects, without starting the remaining items.
\<close>

fun poolLoop :: "('a \<Rightarrow> nat \<times> 'r settled) \<Rightarrow> nat \<Rightarrow> 'a list \<Rightarrow> nat \<Rightarrow> 'r task list
    \<Rightarrow> 'r list \<Rightarrow> string + 'r list" where
  "poolLoop fn concurrency [] clock executing results = awaitAll executing results"
| "poolLoop fn concurrency (item # items) clock executing results =
     (let wrapped = \<lparr>finishAt = clock + fst (fn item), outcome = snd (fn item)\<rparr>;
          executing1 = executing @ [wrapped]
      in if length executing1 \<ge> concurrency then
           (let winner = firstSettled (hd executing1) (tl executing1);
                now = max clock (finishAt winner)
            in case outcome winner of
                 Rejected e \<Rightarrow> Inl e
               | Fulfilled v \<Rightarrow>
                   (case settleUntil now executing1 results of
                      (executing2, results2) \<Rightarrow>
                        poolLoop fn concurrency items now executing2 results2))
         else poolLoop fn concurrency items clock executing1 results)"

definition asyncPool :: "'a list \<Rightarrow> nat \<Rightarrow> ('a \<Rightarrow> nat \<times> 'r settled) \<Rightarrow> string + 'r list" where
  "asyncPool items concurrency fn = poolLoop fn concurrency items 0 [] []"

subsection \<open>scanSite, phase 1: the crawl\<close>













text \<open>Units of work for evaluating the pool: each takes as long as its item says.\<close>

definition tenfold :: "nat \<Rightarrow> nat \<times> nat settled" where
  "tenfold i = (i, Fulfilled (10 * i))"

definition failsOnOne :: "nat \<Rightarrow> nat \<times> nat settled" where
  "failsOnOne i = (i, if i = 1 then Rejected ''boom'' else Fulfilled (10 * i))"

section \<open>Properties of link-fixer.ts\<close>

subsection \<open>The grouping of broken links by href\<close>

lemma addSourcePage_keys:
  "map fst (addSourcePage h p m) = (if h \<in> set (map fst m) then map fst m else map fst m @ [h])"
  by (induction m) force+

lemma addSourcePage_map_of:
  "map_of (addSourcePage h p m) =
     (map_of m)(h \<mapsto> (case map_of m h of None \<Rightarrow> [] | Some ps \<Rightarrow> ps) @ [p])"
  by (induction m) (auto simp: fun_eq_iff)

lemma brokenByUrl_snoc:
  "brokenByUrl (links @ [l]) = addSourcePage (href l) (sourcePage l) (brokenByUrl links)"
  by (simp add: brokenByUrl_def)

lemma brokenByUrl_Nil: "brokenByUrl [] = []"
  by (simp add: brokenByUrl_def)

lemma brokenByUrl_keys_set: "set (map fst (brokenByUrl links)) = href ` set links"
  by (induction links rule: rev_induct)
     (auto simp: brokenByUrl_Nil brokenByUrl_snoc addSourcePage_keys)

lemma brokenByUrl_keys_distinct: "distinct (map fst (brokenByUrl links))"
  by (induction links rule: rev_induct)
     (auto simp: brokenByUrl_Nil brokenByUrl_snoc addSourcePage_keys)

lemma brokenByUrl_map_of:
  "map_of (brokenByUrl links) h =
     (if h \<in> href ` set links then Some (map sourcePage (filter (\<lambda>l. href l = h) links))
      else None)"
proof (induction links rule: rev_induct)
  case Nil
  then show ?case by (simp add: brokenByUrl_Nil)
next
  case (snoc l links)
  have none: "filter (\<lambda>x. href x = href l) links = []" if "href l \<notin> href ` set links"
  proof -
    have "\<forall>x \<in> set links. href x \<noteq> href l"
      using that by (metis imageI)
    then show ?thesis by (simp add: filter_empty_conv)
  qed
  show ?case
    using snoc none by (cases "h = href l") (auto simp: brokenByUrl_snoc addSourcePage_map_of)
qed

lemma firstIndex_less: "x \<in> set xs \<Longrightarrow> firstIndex xs x < length xs"
  by (induction xs) auto

lemma firstIndex_append_in: "x \<in> set xs \<Longrightarrow> firstIndex (xs @ ys) x = firstIndex xs x"
  by (induction xs) auto

lemma firstIndex_snoc_new: "x \<notin> set xs \<Longrightarrow> firstIndex (xs @ [x]) x = length xs"
  by (induction xs) auto

text \<open>The keys of the grouping are in the order of their first appearance in the input.\<close>

lemma brokenByUrl_keys_ordered:
  "sorted_wrt (\<lambda>a b. firstIndex (map href links) a < firstIndex (map href links) b)
     (map fst (brokenByUrl links))"
proof (induction links rule: rev_induct)
  case Nil
  then show ?case by (simp add: brokenByUrl_Nil)
next
  case (snoc l links)
  let ?hs = "map href links"
  let ?K = "map fst (brokenByUrl links)"
  have in_hs: "k \<in> set ?hs" if "k \<in> set ?K" for k
    using that brokenByUrl_keys_set[of links] by simp
  have same: "firstIndex (?hs @ [href l]) k = firstIndex ?hs k" if "k \<in> set ?K" for k
    using in_hs[OF that] by (rule firstIndex_append_in)
  have old: "sorted_wrt (\<lambda>a b. firstIndex (?hs @ [href l]) a < firstIndex (?hs @ [href l]) b) ?K"
    using snoc.IH
  proof (rule sorted_wrt_mono_rel[rotated])
    fix x y
    assume "x \<in> set ?K" "y \<in> set ?K" "firstIndex ?hs x < firstIndex ?hs y"
    then show "firstIndex (?hs @ [href l]) x < firstIndex (?hs @ [href l]) y"
      by (simp only: same)
  qed
  show ?case
  proof (cases "href l \<in> set ?K")
    case True
    then show ?thesis using old by (simp add: brokenByUrl_snoc addSourcePage_keys)
  next
    case False
    then have new: "href l \<notin> set ?hs"
      using brokenByUrl_keys_set[of links] by simp
    have last: "firstIndex (?hs @ [href l]) k < firstIndex (?hs @ [href l]) (href l)"
      if "k \<in> set ?K" for k
      using firstIndex_less[OF in_hs[OF that]] firstIndex_snoc_new[OF new] same[OF that]
      by simp
    have "sorted_wrt (\<lambda>a b. firstIndex (?hs @ [href l]) a < firstIndex (?hs @ [href l]) b)
            (?K @ [href l])"
      unfolding sorted_wrt_append using old last by simp
    then show ?thesis using False
      by (simp add: brokenByUrl_snoc addSourcePage_keys)
  qed
qed

subsection \<open>The redirect-target map\<close>

lemma redirectTargets_snoc:
  "redirectTargets (links @ [l]) =
     (case finalUrl l of
        Some f \<Rightarrow> if f \<noteq> [] then (redirectTargets links)(href l \<mapsto> f) else redirectTargets links
      | None \<Rightarrow> redirectTargets links)"
  by (simp add: redirectTargets_def split: option.splits)

lemma redirectTargets_nonempty: "redirectTargets links h = Some t \<Longrightarrow> t \<noteq> []"
  by (induction links rule: rev_induct)
     (auto simp: redirectTargets_snoc redirectTargets_def split: option.splits if_splits)

text \<open>
  A href is a key of the map exactly when some redirected result with that href has a
  \<open>finalUrl\<close> that is neither \<open>null\<close> nor the empty string.
\<close>

lemma redirectTargets_dom:
  "(\<exists>t. redirectTargets links h = Some t) \<longleftrightarrow>
     (\<exists>l \<in> set links. href l = h \<and> (\<exists>f. finalUrl l = Some f \<and> f \<noteq> []))"
  by (induction links rule: rev_induct)
     (auto simp: redirectTargets_snoc redirectTargets_def split: option.splits if_splits)

subsection \<open>The fixes collected by the main loop\<close>

lemma redirectFix_fields:
  "redirectFix minC targets (k, ps) = Some f \<Longrightarrow> originalHref f = k \<and> sourcePages f = ps"
  by (auto simp: redirectFix_def split: option.splits if_splits)

lemma similarityFix_fields:
  "similarityFix newURL minC good (k, ps) = Some f \<Longrightarrow> originalHref f = k \<and> sourcePages f = ps"
  by (auto simp: similarityFix_def Let_def split: option.splits if_splits prod.splits)

lemma fixFor_fields:
  "fixFor newURL minC good targets (k, ps) = Some f \<Longrightarrow> originalHref f = k \<and> sourcePages f = ps"
  by (auto simp: fixFor_def split: option.splits dest: redirectFix_fields similarityFix_fields)

lemma fixFor_originalHref:
  "fixFor newURL minC good targets e = Some f \<Longrightarrow> originalHref f = fst e"
  using fixFor_fields[of newURL minC good targets "fst e" "snd e" f] by simp

lemma fixFor_sourcePages:
  "fixFor newURL minC good targets e = Some f \<Longrightarrow> sourcePages f = snd e"
  using fixFor_fields[of newURL minC good targets "fst e" "snd e" f] by simp

lemma map_filter_Cons:
  "List.map_filter g (x # xs) =
     (case g x of None \<Rightarrow> List.map_filter g xs | Some y \<Rightarrow> y # List.map_filter g xs)"
  by (simp add: List.map_filter_def split: option.splits)

lemma map_filter_Nil: "List.map_filter g [] = []"
  by (simp add: List.map_filter_def)

lemma set_map_filter: "set (List.map_filter g xs) = {y. \<exists>x \<in> set xs. g x = Some y}"
  by (induction xs) (auto simp: map_filter_Nil map_filter_Cons split: option.splits)

lemma fixes_keys:
  "map originalHref (List.map_filter (fixFor newURL minC good targets) es) =
     map fst (filter (\<lambda>e. fixFor newURL minC good targets e \<noteq> None) es)"
  by (induction es)
     (auto simp: map_filter_Nil map_filter_Cons fixFor_originalHref split: option.splits)

lemma fixes_filter_href:
  "filter (\<lambda>f. originalHref f = h) (List.map_filter (fixFor newURL minC good targets) es) =
     List.map_filter (fixFor newURL minC good targets) (filter (\<lambda>e. fst e = h) es)"
  by (induction es)
     (auto simp: map_filter_Nil map_filter_Cons split: option.splits dest: fixFor_originalHref)

lemma filter_key_unique:
  "distinct (map fst es) \<Longrightarrow> map_of es h = Some ps \<Longrightarrow> filter (\<lambda>e. fst e = h) es = [(h, ps)]"
proof (induction es)
  case Nil
  then show ?case by simp
next
  case (Cons e es)
  show ?case
  proof (cases "fst e = h")
    case True
    from Cons.prems have "fst e \<notin> fst ` set es" by simp
    with True have "\<forall>x \<in> set es. fst x \<noteq> h" by (metis imageI)
    then have "filter (\<lambda>e. fst e = h) es = []" by (simp add: filter_empty_conv)
    with True Cons.prems show ?thesis by (cases e) auto
  next
    case False
    with Cons show ?thesis by (cases e) auto
  qed
qed

lemma filter_key_length:
  "distinct (map g xs) \<Longrightarrow> length (filter (\<lambda>x. g x = k) xs) \<le> Suc 0"
proof (induction xs)
  case Nil
  then show ?case by simp
next
  case (Cons x xs)
  show ?case
  proof (cases "g x = k")
    case True
    from Cons.prems have "g x \<notin> g ` set xs" by simp
    with True have "\<forall>y \<in> set xs. g y \<noteq> k" by (metis imageI)
    then have "filter (\<lambda>x. g x = k) xs = []" by (simp add: filter_empty_conv)
    with True show ?thesis by simp
  next
    case False
    with Cons show ?thesis by simp
  qed
qed

lemma computeFixes_unfold:
  "computeFixes newURL brokenLinks good redirectLinks options =
     sort_key (\<lambda>fix. - confidence fix)
       (List.map_filter
          (fixFor newURL (case minConfidence options of Some c \<Rightarrow> c | None \<Rightarrow> 0.4) good
             (redirectTargets redirectLinks))
          (brokenByUrl brokenLinks))"
  by (simp add: computeFixes_def Let_def)

lemma fixes_distinct:
  "distinct (map originalHref
     (List.map_filter (fixFor newURL minC good targets) (brokenByUrl brokenLinks)))"
  unfolding fixes_keys by (rule distinct_map_filter) (rule brokenByUrl_keys_distinct)

lemma fixes_ordered:
  "sorted_wrt (\<lambda>a b. firstIndex (map href brokenLinks) (originalHref a)
                     < firstIndex (map href brokenLinks) (originalHref b))
     (List.map_filter (fixFor newURL minC good targets) (brokenByUrl brokenLinks))"
proof -
  let ?R = "\<lambda>a b. firstIndex (map href brokenLinks) a < firstIndex (map href brokenLinks) b"
  have "sorted_wrt (\<lambda>x y. ?R (fst x) (fst y)) (brokenByUrl brokenLinks)"
    using brokenByUrl_keys_ordered[of brokenLinks] by (simp add: sorted_wrt_map)
  then have "sorted_wrt (\<lambda>x y. ?R (fst x) (fst y))
      (filter (\<lambda>e. fixFor newURL minC good targets e \<noteq> None) (brokenByUrl brokenLinks))"
    by (rule sorted_wrt_filter)
  then have "sorted_wrt ?R (map originalHref
      (List.map_filter (fixFor newURL minC good targets) (brokenByUrl brokenLinks)))"
    unfolding fixes_keys by (simp add: sorted_wrt_map)
  then show ?thesis by (simp add: sorted_wrt_map)
qed

lemma fixes_sourcePages:
  assumes "f \<in> set (List.map_filter (fixFor newURL minC good targets) (brokenByUrl brokenLinks))"
  shows "sourcePages f = map sourcePage (filter (\<lambda>l. href l = originalHref f) brokenLinks)"
proof -
  from assms obtain e where e: "e \<in> set (brokenByUrl brokenLinks)"
      and f: "fixFor newURL minC good targets e = Some f"
    by (auto simp: set_map_filter)
  have "map_of (brokenByUrl brokenLinks) (fst e) = Some (snd e)"
    by (rule map_of_is_SomeI[OF brokenByUrl_keys_distinct]) (use e in simp)
  then have "snd e = map sourcePage (filter (\<lambda>l. href l = fst e) brokenLinks)"
    by (simp add: brokenByUrl_map_of split: if_splits)
  then show ?thesis
    using fixFor_originalHref[OF f] fixFor_sourcePages[OF f] by simp
qed

subsection \<open>Stable sorting\<close>

text \<open>
  Inserting into a list that is ordered by key, and among equal keys by \<open>R\<close>, an element
  that is \<open>R\<close>-before all of the list keeps that order: the stable sort of an \<open>R\<close>-ordered
  list is ordered lexicographically by key and \<open>R\<close>.
\<close>

lemma insort_key_lex:
  fixes f :: "'a \<Rightarrow> 'k::linorder"
  assumes "sorted_wrt (\<lambda>a b. f a < f b \<or> (f a = f b \<and> R a b)) ys"
    and "\<forall>y \<in> set ys. R x y"
  shows "sorted_wrt (\<lambda>a b. f a < f b \<or> (f a = f b \<and> R a b)) (insort_key f x ys)"
  using assms
proof (induction ys)
  case Nil
  then show ?case by simp
next
  case (Cons y ys)
  show ?case
  proof (cases "f x \<le> f y")
    case True
    have "\<forall>z \<in> set ys. f y \<le> f z" using Cons.prems(1) by auto
    with True Cons.prems show ?thesis by (auto simp: le_less)
  next
    case False
    with Cons show ?thesis by (auto simp: set_insort_key)
  qed
qed

lemma sort_key_lex:
  fixes f :: "'a \<Rightarrow> 'k::linorder"
  shows "sorted_wrt R xs \<Longrightarrow>
     sorted_wrt (\<lambda>a b. f a < f b \<or> (f a = f b \<and> R a b)) (sort_key f xs)"
  by (induction xs) (auto intro: insort_key_lex)

lemma sort_key_distinct_map:
  "distinct (map g xs) \<Longrightarrow> distinct (map g (sort_key f xs))"
  by (metis distinct_map distinct_sort set_sort inj_on_cong)

subsection \<open>Claims about computeFixes and fixesToRedirects\<close>

text \<open>
  Claim C1, as amended. For every href \<open>h\<close>, \<open>computeFixes\<close> returns at most one
  suggestion whose \<open>originalHref\<close> is \<open>h\<close>, and the \<open>sourcePages\<close> of that suggestion are
  the \<open>sourcePage\<close> fields of all broken results with href \<open>h\<close>, in input order. The list
  is not deduplicated: a page that occurs in two results for \<open>h\<close> occurs twice.
\<close>

theorem computeFixes_one_fix_per_href:
  "length (filter (\<lambda>f. originalHref f = h)
             (computeFixes newURL brokenLinks knownGoodUrls redirectLinks options)) \<le> 1
   \<and> (\<forall>f \<in> set (computeFixes newURL brokenLinks knownGoodUrls redirectLinks options).
         originalHref f = h \<longrightarrow>
         sourcePages f = map sourcePage (filter (\<lambda>l. href l = h) brokenLinks))"
proof (intro conjI ballI impI)
  show "length (filter (\<lambda>f. originalHref f = h)
             (computeFixes newURL brokenLinks knownGoodUrls redirectLinks options)) \<le> 1"
    unfolding computeFixes_unfold filter_sort
    using filter_key_length[OF fixes_distinct] by simp
next
  fix f
  assume "f \<in> set (computeFixes newURL brokenLinks knownGoodUrls redirectLinks options)"
    and "originalHref f = h"
  then show "sourcePages f = map sourcePage (filter (\<lambda>l. href l = h) brokenLinks)"
    using fixes_sourcePages[of f] by (auto simp: computeFixes_unfold)
qed

text \<open>
  Witness for C1: the href \<open>https://example.com/missing\<close>, referenced from two pages,
  gets one suggestion, which lists both pages.
\<close>

theorem computeFixes_one_fix_per_href_witness:
  "map originalHref
     (computeFixes parseURL
        [brokenLink ''https://example.com/missing'' ''https://example.com/page-a'',
         brokenLink ''https://example.com/missing'' ''https://example.com/page-b'']
        [''https://example.com/missingg''] []
        \<lparr>minConfidence = Some 0.3, maxSuggestions = None\<rparr>)
     = [''https://example.com/missing'']
   \<and> map sourcePages
     (computeFixes parseURL
        [brokenLink ''https://example.com/missing'' ''https://example.com/page-a'',
         brokenLink ''https://example.com/missing'' ''https://example.com/page-b'']
        [''https://example.com/missingg''] []
        \<lparr>minConfidence = Some 0.3, maxSuggestions = None\<rparr>)
     = [[''https://example.com/page-a'', ''https://example.com/page-b'']]"
proof -
  let ?broken = "[brokenLink ''https://example.com/missing'' ''https://example.com/page-a'',
         brokenLink ''https://example.com/missing'' ''https://example.com/page-b'']"
  let ?out = "computeFixes parseURL ?broken [''https://example.com/missingg''] []
        \<lparr>minConfidence = Some 0.3, maxSuggestions = None\<rparr>"
  have keys: "map originalHref ?out = [''https://example.com/missing'']"
    by code_simp
  then obtain f where out: "?out = [f]" and f: "originalHref f = ''https://example.com/missing''"
    by auto
  have "sourcePages f =
      map sourcePage (filter (\<lambda>l. href l = ''https://example.com/missing'') ?broken)"
    using computeFixes_one_fix_per_href[of "''https://example.com/missing''" parseURL ?broken
        "[''https://example.com/missingg'']" "[]"
        "\<lparr>minConfidence = Some 0.3, maxSuggestions = None\<rparr>"] f
    unfolding out by simp
  then have "sourcePages f = [''https://example.com/page-a'', ''https://example.com/page-b'']"
    by (simp add: brokenLink_def)
  with keys out show ?thesis by simp
qed

text \<open>
  Counterexample to C1 as stated: two results with the same href and the same source page
  give a suggestion whose \<open>sourcePages\<close> lists that page twice.
\<close>

theorem computeFixes_sourcePages_keep_duplicates:
  "map sourcePages
     (computeFixes parseURL
        [brokenLink ''https://example.com/missing'' ''https://example.com/page-a'',
         brokenLink ''https://example.com/missing'' ''https://example.com/page-a'']
        [''https://example.com/missingg''] []
        \<lparr>minConfidence = Some 0.3, maxSuggestions = None\<rparr>)
   = [[''https://example.com/page-a'', ''https://example.com/page-a'']]"
  by code_simp

text \<open>
  Claim C2. If the broken href \<open>h\<close> is a key of the redirect-target map with value \<open>t\<close>,
  and the threshold is at most \<open>0.95\<close>, then the suggestions for \<open>h\<close> are exactly one:
  \<open>t\<close> with confidence \<open>0.95\<close> and method \<open>redirect-target\<close>, for every list of
  known-good URLs.
\<close>

theorem computeFixes_redirect_target_wins:
  assumes "redirectTargets redirectLinks h = Some t"
    and "h \<in> href ` set brokenLinks"
    and "(case minConfidence options of Some c \<Rightarrow> c | None \<Rightarrow> 0.4) \<le> 0.95"
  shows "filter (\<lambda>f. originalHref f = h)
           (computeFixes newURL brokenLinks knownGoodUrls redirectLinks options) =
         [\<lparr>originalHref = h, suggestedHref = t, confidence = 0.95, fixMethod = RedirectTarget,
           sourcePages = map sourcePage (filter (\<lambda>l. href l = h) brokenLinks)\<rparr>]"
proof -
  let ?ps = "map sourcePage (filter (\<lambda>l. href l = h) brokenLinks)"
  let ?minC = "case minConfidence options of Some c \<Rightarrow> c | None \<Rightarrow> 0.4"
  have entry: "filter (\<lambda>e. fst e = h) (brokenByUrl brokenLinks) = [(h, ?ps)]"
    using assms(2)
    by (intro filter_key_unique brokenByUrl_keys_distinct) (simp add: brokenByUrl_map_of)
  have "t \<noteq> []" using assms(1) by (rule redirectTargets_nonempty)
  then have "fixFor newURL ?minC knownGoodUrls (redirectTargets redirectLinks) (h, ?ps) =
      Some \<lparr>originalHref = h, suggestedHref = t, confidence = 0.95, fixMethod = RedirectTarget,
            sourcePages = ?ps\<rparr>"
    using assms(1,3) by (simp add: fixFor_def redirectFix_def)
  then show ?thesis
    unfolding computeFixes_unfold filter_sort fixes_filter_href entry
    by (simp add: map_filter_Cons map_filter_Nil)
qed

text \<open>
  Witness for C2: the test "should prefer redirect target over fuzzy match", with a
  known-good URL one character away from the broken one.
\<close>

theorem computeFixes_redirect_target_wins_witness:
  "redirectTargets
       [redirectLink ''https://example.com/old'' (Some ''https://example.com/brand-new'')]
       ''https://example.com/old'' = Some ''https://example.com/brand-new''
   \<and> ''https://example.com/old''
       \<in> href ` set [brokenLink ''https://example.com/old'' ''https://example.com/page'']
   \<and> (case minConfidence \<lparr>minConfidence = None, maxSuggestions = None\<rparr> of
         Some c \<Rightarrow> c | None \<Rightarrow> 0.4) \<le> (0.95 :: real)
   \<and> filter (\<lambda>f. originalHref f = ''https://example.com/old'')
       (computeFixes parseURL
          [brokenLink ''https://example.com/old'' ''https://example.com/page'']
          [''https://example.com/oldd'']
          [redirectLink ''https://example.com/old'' (Some ''https://example.com/brand-new'')]
          \<lparr>minConfidence = None, maxSuggestions = None\<rparr>)
     = [\<lparr>originalHref = ''https://example.com/old'',
         suggestedHref = ''https://example.com/brand-new'',
         confidence = 0.95, fixMethod = RedirectTarget,
         sourcePages = [''https://example.com/page'']\<rparr>]"
proof -
  have h1: "redirectTargets
       [redirectLink ''https://example.com/old'' (Some ''https://example.com/brand-new'')]
       ''https://example.com/old'' = Some ''https://example.com/brand-new''"
    by (simp add: redirectTargets_def redirectLink_def)
  have h2: "''https://example.com/old''
       \<in> href ` set [brokenLink ''https://example.com/old'' ''https://example.com/page'']"
    by (simp add: brokenLink_def)
  have h3: "(case minConfidence \<lparr>minConfidence = None, maxSuggestions = None\<rparr> of
         Some c \<Rightarrow> c | None \<Rightarrow> 0.4) \<le> (0.95 :: real)"
    by simp
  show ?thesis
    using h1 h2 h3
      computeFixes_redirect_target_wins[OF h1 h2 h3, of parseURL "[''https://example.com/oldd'']"]
    by (simp add: brokenLink_def)
qed

text \<open>
  Claim C6. The result of \<open>computeFixes\<close> is sorted by non-increasing confidence, and the
  sort is stable: of two suggestions with equal confidence, the one whose href appears
  first among the hrefs of the broken results comes first. Both follow from the second
  conjunct: the result is ordered lexicographically, by descending confidence and then by
  the position of the first appearance of the href.
\<close>

theorem computeFixes_sorted_stable:
  "sorted_wrt (\<lambda>a b. confidence a \<ge> confidence b)
     (computeFixes newURL brokenLinks knownGoodUrls redirectLinks options)
   \<and> sorted_wrt (\<lambda>a b. confidence a > confidence b
         \<or> (confidence a = confidence b
            \<and> firstIndex (map href brokenLinks) (originalHref a)
                < firstIndex (map href brokenLinks) (originalHref b)))
     (computeFixes newURL brokenLinks knownGoodUrls redirectLinks options)"
proof -
  have lex: "sorted_wrt (\<lambda>a b. confidence a > confidence b
         \<or> (confidence a = confidence b
            \<and> firstIndex (map href brokenLinks) (originalHref a)
                < firstIndex (map href brokenLinks) (originalHref b)))
     (computeFixes newURL brokenLinks knownGoodUrls redirectLinks options)"
    unfolding computeFixes_unfold
    using sort_key_lex[OF fixes_ordered, where f = "\<lambda>fix. - confidence fix"]
    by simp
  then have "sorted_wrt (\<lambda>a b. confidence a \<ge> confidence b)
     (computeFixes newURL brokenLinks knownGoodUrls redirectLinks options)"
    by (rule sorted_wrt_mono_rel[rotated]) auto
  with lex show ?thesis by simp
qed

text \<open>
  Claim C7. The broken href \<open>https://example.com/docss/guide\<close> with the known-good list
  \<open>[https://example.com/docs/guide]\<close>, no redirect results and threshold \<open>0.3\<close> gives
  exactly one suggestion, for the known-good URL, with confidence
  \<open>0.6 * (1/2) + 0.4 * (1 - levenshtein(docss/guide, docs/guide) / 11)\<close>, which is greater
  than \<open>0.6\<close> (the edit distance is 1). The other fields of the broken result are arbitrary.
\<close>

theorem computeFixes_docss_guide:
  "computeFixes parseURL
     [\<lparr>statusCode = sc, finalUrl = fu, redirectChain = rc, error = er, sourcePage = sp,
       href = ''https://example.com/docss/guide'', resolvedUrl = ru, isRedirect = ir\<rparr>]
     [''https://example.com/docs/guide''] []
     \<lparr>minConfidence = Some 0.3, maxSuggestions = ms\<rparr>
   = [\<lparr>originalHref = ''https://example.com/docss/guide'',
       suggestedHref = ''https://example.com/docs/guide'',
       confidence =
         0.6 * (1 / 2) + 0.4 * (1 - real (levenshtein ''docss/guide'' ''docs/guide'') / 11),
       fixMethod = PathSimilarity, sourcePages = [sp]\<rparr>]
   \<and> 0.6 * (1 / 2) + 0.4 * (1 - real (levenshtein ''docss/guide'' ''docs/guide'') / 11)
       > (0.6 :: real)
   \<and> levenshtein ''docss/guide'' ''docs/guide'' = 1"
  by code_simp

text \<open>
  Claim C8, as amended. \<open>fixesToRedirects\<close> returns, in their original order, exactly the
  fixes whose confidence is at least the threshold, each as an entry with status 301 whose
  \<open>from\<close> and \<open>to\<close> are \<open>getPathname\<close> of the two hrefs: the path component when the href
  parses as an absolute URL, and the href itself, unchanged, when it does not. Without a
  threshold the default is \<open>0.6\<close>.
\<close>

theorem fixesToRedirects_filter_map:
  "fixesToRedirects newURL fixes (Some c) =
     map (\<lambda>fix. \<lparr>from_path = (case newURL (originalHref fix) of
                                Some parsed \<Rightarrow> pathname parsed | None \<Rightarrow> originalHref fix),
                  to_path = (case newURL (suggestedHref fix) of
                                Some parsed \<Rightarrow> pathname parsed | None \<Rightarrow> suggestedHref fix),
                  redirectStatus = 301\<rparr>)
       (filter (\<lambda>fix. c \<le> confidence fix) fixes)
   \<and> fixesToRedirects newURL fixes None = fixesToRedirects newURL fixes (Some 0.6)"
  by (simp add: fixesToRedirects_def getPathname_def)

text \<open>
  Counterexample to C8 as stated: a fix whose hrefs are site-relative references, which
  the URL constructor rejects, gives an entry whose \<open>from\<close> field still carries the query.
\<close>

theorem fixesToRedirects_keeps_unparseable_href:
  "fixesToRedirects parseURL
     [\<lparr>originalHref = ''/old-page?ref=nav'', suggestedHref = ''/new-page'',
       confidence = 0.9, fixMethod = Manual, sourcePages = []\<rparr>]
     (Some 0.6)
   = [\<lparr>from_path = ''/old-page?ref=nav'', to_path = ''/new-page'', redirectStatus = 301\<rparr>]"
  by code_simp

text \<open>
  Claim C10. The option \<open>maxSuggestions\<close> has no effect: two option records that differ
  only in it give the same result, and the result never has two suggestions for one href.
\<close>

theorem computeFixes_ignores_maxSuggestions:
  "computeFixes newURL brokenLinks knownGoodUrls redirectLinks (options\<lparr>maxSuggestions := m1\<rparr>)
     = computeFixes newURL brokenLinks knownGoodUrls redirectLinks
         (options\<lparr>maxSuggestions := m2\<rparr>)
   \<and> distinct (map originalHref
        (computeFixes newURL brokenLinks knownGoodUrls redirectLinks
           (options\<lparr>maxSuggestions := m1\<rparr>)))"
proof
  show "computeFixes newURL brokenLinks knownGoodUrls redirectLinks
          (options\<lparr>maxSuggestions := m1\<rparr>)
     = computeFixes newURL brokenLinks knownGoodUrls redirectLinks
         (options\<lparr>maxSuggestions := m2\<rparr>)"
    by (simp add: computeFixes_def)
next
  show "distinct (map originalHref
        (computeFixes newURL brokenLinks knownGoodUrls redirectLinks
           (options\<lparr>maxSuggestions := m1\<rparr>)))"
    unfolding computeFixes_unfold by (rule sort_key_distinct_map) (rule fixes_distinct)
qed

section \<open>Properties of link-scanner.ts\<close>

subsection \<open>normalizeUrl\<close>








lemma toString_no_query:
  "query c = None \<Longrightarrow> fragment c = None \<Longrightarrow> toString c = prefix c @ pathname c"
  by (simp add: toString_def)


subsection \<open>checkUrl\<close>

lemma redirectHops_SucD:
  assumes "redirectHops fetch resolve timeout i u (Suc n)"
  obtains resp loc nxt where "fetch timeout i u = Inr resp"
    and "status resp \<ge> 300" and "status resp < 400"
    and "location resp = Some loc" and "loc \<noteq> []" and "resolve loc u = Inr nxt"
    and "redirectHops fetch resolve timeout (Suc i) nxt n"
proof -
  obtain resp where f: "fetch timeout i u = Inr resp"
    using assms by (cases "fetch timeout i u") auto
  with assms have st: "status resp \<ge> 300" "status resp < 400"
    and l': "case location resp of None \<Rightarrow> False
             | Some loc \<Rightarrow> loc \<noteq> [] \<and>
                 (case resolve loc u of Inl message \<Rightarrow> False
                  | Inr next \<Rightarrow> redirectHops fetch resolve timeout (Suc i) next n)"
    by auto
  then obtain loc where l: "location resp = Some loc"
    by (cases "location resp") auto
  with l' have ne: "loc \<noteq> []"
    and r': "case resolve loc u of Inl message \<Rightarrow> False
             | Inr next \<Rightarrow> redirectHops fetch resolve timeout (Suc i) next n"
    by auto
  then obtain nxt where r: "resolve loc u = Inr nxt"
    by (cases "resolve loc u") auto
  with r' have "redirectHops fetch resolve timeout (Suc i) nxt n" by simp
  with f st l ne r show thesis by (rule that)
qed

lemma redirectHops_too_many:
  "redirectHops fetch resolve timeout i u n \<Longrightarrow> i + n = Suc maxRedirects \<Longrightarrow>
   statusCode (checkLoop fetch resolve timeout True maxRedirects i u chain) = None \<and>
   error (checkLoop fetch resolve timeout True maxRedirects i u chain) = Some ''Too many redirects''"
proof (induction n arbitrary: i u chain)
  case 0
  then have "i = Suc maxRedirects" by simp
  then show ?case
    by (simp add: checkLoop.simps[of _ _ _ _ maxRedirects "Suc maxRedirects"])
next
  case (Suc n)
  from Suc.prems(2) have le: "i \<le> maxRedirects" by simp
  from Suc.prems(1) obtain resp loc nxt where
    f: "fetch timeout i u = Inr resp" and st: "status resp \<ge> 300" "status resp < 400"
    and l: "location resp = Some loc" "loc \<noteq> []" and r: "resolve loc u = Inr nxt"
    and rest: "redirectHops fetch resolve timeout (Suc i) nxt n"
    by (rule redirectHops_SucD)
  have "checkLoop fetch resolve timeout True maxRedirects i u chain =
        checkLoop fetch resolve timeout True maxRedirects (Suc i) nxt (chain @ [u])"
    using le f st l r by (subst checkLoop.simps) simp
  moreover have "Suc i + n = Suc maxRedirects" using Suc.prems(2) by simp
  ultimately show ?case using Suc.IH[OF rest, of "chain @ [u]"] by simp
qed

lemma redirectHops_mono:
  "redirectHops fetch resolve timeout i u n \<Longrightarrow> m \<le> n \<Longrightarrow> redirectHops fetch resolve timeout i u m"
proof (induction m arbitrary: i u n)
  case 0
  then show ?case by simp
next
  case (Suc m)
  then obtain n' where n: "n = Suc n'" "m \<le> n'" by (cases n) auto
  from Suc.prems(1)[unfolded n] obtain resp loc nxt where
    f: "fetch timeout i u = Inr resp" and st: "status resp \<ge> 300" "status resp < 400"
    and l: "location resp = Some loc" "loc \<noteq> []" and r: "resolve loc u = Inr nxt"
    and rest: "redirectHops fetch resolve timeout (Suc i) nxt n'"
    by (rule redirectHops_SucD)
  from Suc.IH[OF rest n(2)] f st l r show ?case by simp
qed

subsection \<open>The crawl\<close>




subsection \<open>asyncPool\<close>

lemma firstSettled_mem: "firstSettled k ks \<in> set (k # ks)"
  by (induction ks arbitrary: k) (auto split: if_splits)

lemma firstSettled_hd_tl: "ks \<noteq> [] \<Longrightarrow> firstSettled (hd ks) (tl ks) \<in> set ks"
  using firstSettled_mem[of "hd ks" "tl ks"] by simp

lemma isFulfilled_iff: "isFulfilled x \<longleftrightarrow> (\<exists>v. x = Fulfilled v)"
  by (cases x) auto

lemma not_isFulfilled_iff: "\<not> isFulfilled x \<longleftrightarrow> (\<exists>e. x = Rejected e)"
  by (cases x) auto

lemma fulfilledValues_all:
  "\<forall>k \<in> set ks. isFulfilled (outcome k) \<Longrightarrow>
   map Fulfilled (fulfilledValues ks) = map outcome ks"
  by (induction ks) (auto simp: isFulfilled_iff)

lemma awaitAll_fulfilled:
  assumes "\<forall>k \<in> set ex. isFulfilled (outcome k)"
  shows "awaitAll ex rs = Inr (rs @ fulfilledValues (sort_key finishAt ex))"
proof -
  have "filter (\<lambda>k. \<not> isFulfilled (outcome k)) ex = []"
    using assms by (simp add: filter_empty_conv)
  then show ?thesis by (simp add: awaitAll_def)
qed

lemma awaitAll_rejected:
  assumes "\<exists>k \<in> set ex. \<not> isFulfilled (outcome k)"
  shows "\<exists>e. awaitAll ex rs = Inl e \<and> (\<exists>k \<in> set ex. outcome k = Rejected e)"
proof -
  from assms obtain k ks where f: "filter (\<lambda>k. \<not> isFulfilled (outcome k)) ex = k # ks"
    by (cases "filter (\<lambda>k. \<not> isFulfilled (outcome k)) ex") (auto simp: filter_empty_conv)
  have "firstSettled k ks \<in> set (filter (\<lambda>k. \<not> isFulfilled (outcome k)) ex)"
    unfolding f by (rule firstSettled_mem)
  then have mem: "firstSettled k ks \<in> set ex" and "\<not> isFulfilled (outcome (firstSettled k ks))"
    by simp_all
  then obtain e where e: "outcome (firstSettled k ks) = Rejected e"
    by (auto simp: not_isFulfilled_iff)
  then have "awaitAll ex rs = Inl e" by (simp add: awaitAll_def f)
  with mem e show ?thesis by blast
qed

lemma settleUntil_keeps_rejected:
  "k \<in> set ex \<Longrightarrow> \<not> isFulfilled (outcome k) \<Longrightarrow> k \<in> set (fst (settleUntil t ex rs))"
  by (simp add: settleUntil_def settledBy_def)

lemma settleUntil_subset: "set (fst (settleUntil t ex rs)) \<subseteq> set ex"
  by (auto simp: settleUntil_def)

lemma settleUntil_outcomes:
  assumes "\<forall>k \<in> set ex. isFulfilled (outcome k)"
  shows "mset (map Fulfilled (snd (settleUntil t ex rs))) + mset (map outcome (fst (settleUntil t ex rs)))
           = mset (map Fulfilled rs) + mset (map outcome ex)"
proof -
  let ?due = "sort_key finishAt (filter (settledBy t) ex)"
  have "\<forall>k \<in> set ?due. isFulfilled (outcome k)" using assms by simp
  then have "map Fulfilled (fulfilledValues ?due) = map outcome ?due"
    by (rule fulfilledValues_all)
  then have "mset (map Fulfilled (fulfilledValues ?due)) = image_mset outcome (mset ?due)"
    by simp
  also have "\<dots> = image_mset outcome (filter_mset (settledBy t) (mset ex))"
    by simp
  finally have due: "mset (map Fulfilled (fulfilledValues ?due))
      = image_mset outcome (filter_mset (settledBy t) (mset ex))" .
  have "image_mset outcome (filter_mset (settledBy t) (mset ex))
          + image_mset outcome (filter_mset (\<lambda>k. \<not> settledBy t k) (mset ex))
        = image_mset outcome (mset ex)"
    by (metis image_mset_union multiset_partition)
  with due show ?thesis
    by (simp add: settleUntil_def ac_simps)
qed

lemma poolLoop_rejects:
  "(\<exists>k \<in> set ex. \<not> isFulfilled (outcome k)) \<or> (\<exists>x \<in> set items. \<not> isFulfilled (snd (fn x))) \<Longrightarrow>
   \<exists>e. poolLoop fn c items clock ex rs = Inl e
       \<and> ((\<exists>k \<in> set ex. outcome k = Rejected e) \<or> (\<exists>x \<in> set items. snd (fn x) = Rejected e))"
proof (induction items arbitrary: clock ex rs)
  case Nil
  then show ?case using awaitAll_rejected[of ex rs] by simp
next
  case (Cons item items)
  let ?w = "\<lparr>finishAt = clock + fst (fn item), outcome = snd (fn item)\<rparr>"
  let ?ex1 = "ex @ [?w]"
  let ?winner = "firstSettled (hd ?ex1) (tl ?ex1)"
  let ?now = "max clock (finishAt ?winner)"
  have rej1: "(\<exists>k \<in> set ?ex1. \<not> isFulfilled (outcome k)) \<or> (\<exists>x \<in> set items. \<not> isFulfilled (snd (fn x)))"
    using Cons.prems by auto
  have widen: "(\<exists>k \<in> set ex. outcome k = Rejected e) \<or> (\<exists>x \<in> set (item # items). snd (fn x) = Rejected e)"
    if "(\<exists>k \<in> set ?ex1. outcome k = Rejected e) \<or> (\<exists>x \<in> set items. snd (fn x) = Rejected e)" for e
    using that by auto
  show ?case
  proof (cases "length ?ex1 \<ge> c")
    case False
    then have "poolLoop fn c (item # items) clock ex rs = poolLoop fn c items clock ?ex1 rs"
      by (simp add: Let_def)
    with Cons.IH[OF rej1, of clock rs] widen show ?thesis by auto
  next
    case True
    have wmem: "?winner \<in> set ?ex1" by (rule firstSettled_hd_tl) simp
    show ?thesis
    proof (cases "outcome ?winner")
      case (Rejected e)
      with True have "poolLoop fn c (item # items) clock ex rs = Inl e"
        by (simp add: Let_def)
      moreover have "\<exists>k \<in> set ?ex1. outcome k = Rejected e" using wmem Rejected by blast
      ultimately show ?thesis using widen[of e] by blast
    next
      case (Fulfilled v)
      obtain ex2 rs2 where su: "settleUntil ?now ?ex1 rs = (ex2, rs2)"
        by (cases "settleUntil ?now ?ex1 rs")
      with True Fulfilled have step: "poolLoop fn c (item # items) clock ex rs
          = poolLoop fn c items ?now ex2 rs2"
        by (simp add: Let_def)
      have keep: "k \<in> set ex2" if "k \<in> set ?ex1" "\<not> isFulfilled (outcome k)" for k
        using settleUntil_keeps_rejected[OF that, of ?now rs] su by simp
      have sub: "set ex2 \<subseteq> set ?ex1" using settleUntil_subset[of ?now ?ex1 rs] su by simp
      have "(\<exists>k \<in> set ex2. \<not> isFulfilled (outcome k)) \<or> (\<exists>x \<in> set items. \<not> isFulfilled (snd (fn x)))"
        using rej1 keep by blast
      from Cons.IH[OF this, of ?now rs2] obtain e where
        r: "poolLoop fn c items ?now ex2 rs2 = Inl e"
        and w: "(\<exists>k \<in> set ex2. outcome k = Rejected e) \<or> (\<exists>x \<in> set items. snd (fn x) = Rejected e)"
        by blast
      from w sub have "(\<exists>k \<in> set ?ex1. outcome k = Rejected e) \<or> (\<exists>x \<in> set items. snd (fn x) = Rejected e)"
        by blast
      with r step widen[of e] show ?thesis by simp
    qed
  qed
qed

lemma poolLoop_returns:
  "\<forall>k \<in> set ex. isFulfilled (outcome k) \<Longrightarrow> \<forall>x \<in> set items. isFulfilled (snd (fn x)) \<Longrightarrow>
   \<exists>out. poolLoop fn c items clock ex rs = Inr out
       \<and> mset (map Fulfilled out)
           = mset (map Fulfilled rs) + mset (map outcome ex) + mset (map (\<lambda>x. snd (fn x)) items)"
proof (induction items arbitrary: clock ex rs)
  case Nil
  have "map Fulfilled (fulfilledValues (sort_key finishAt ex)) = map outcome (sort_key finishAt ex)"
    using Nil.prems(1) by (intro fulfilledValues_all) simp
  then have "mset (map Fulfilled (fulfilledValues (sort_key finishAt ex))) = mset (map outcome ex)"
    by simp
  then show ?case using awaitAll_fulfilled[OF Nil.prems(1), of rs] by simp
next
  case (Cons item items)
  let ?w = "\<lparr>finishAt = clock + fst (fn item), outcome = snd (fn item)\<rparr>"
  let ?ex1 = "ex @ [?w]"
  let ?winner = "firstSettled (hd ?ex1) (tl ?ex1)"
  let ?now = "max clock (finishAt ?winner)"
  have all1: "\<forall>k \<in> set ?ex1. isFulfilled (outcome k)" using Cons.prems by simp
  have rest: "\<forall>x \<in> set items. isFulfilled (snd (fn x))" using Cons.prems by simp
  have acc1: "mset (map outcome ?ex1) + mset (map (\<lambda>x. snd (fn x)) items)
      = mset (map outcome ex) + mset (map (\<lambda>x. snd (fn x)) (item # items))"
    by simp
  show ?case
  proof (cases "length ?ex1 \<ge> c")
    case False
    then have "poolLoop fn c (item # items) clock ex rs = poolLoop fn c items clock ?ex1 rs"
      by (simp add: Let_def)
    with Cons.IH[OF all1 rest, of clock rs] show ?thesis by (auto simp: ac_simps)
  next
    case True
    have "?winner \<in> set ?ex1" by (rule firstSettled_hd_tl) simp
    with all1 obtain v where v: "outcome ?winner = Fulfilled v"
      by (auto simp: isFulfilled_iff)
    obtain ex2 rs2 where su: "settleUntil ?now ?ex1 rs = (ex2, rs2)"
      by (cases "settleUntil ?now ?ex1 rs")
    with True v have step: "poolLoop fn c (item # items) clock ex rs
        = poolLoop fn c items ?now ex2 rs2"
      by (simp add: Let_def)
    have "set ex2 \<subseteq> set ?ex1" using settleUntil_subset[of ?now ?ex1 rs] su by simp
    with all1 have all2: "\<forall>k \<in> set ex2. isFulfilled (outcome k)" by blast
    have acc2: "mset (map Fulfilled rs2) + mset (map outcome ex2)
        = mset (map Fulfilled rs) + mset (map outcome ?ex1)"
      using settleUntil_outcomes[OF all1, of ?now rs] su by simp
    from Cons.IH[OF all2 rest, of ?now rs2] obtain out where
      r: "poolLoop fn c items ?now ex2 rs2 = Inr out"
      and m: "mset (map Fulfilled out)
           = mset (map Fulfilled rs2) + mset (map outcome ex2) + mset (map (\<lambda>x. snd (fn x)) items)"
      by blast
    from m acc2 have "mset (map Fulfilled out)
        = mset (map Fulfilled rs) + mset (map outcome ?ex1) + mset (map (\<lambda>x. snd (fn x)) items)"
      by simp
    then have "mset (map Fulfilled out)
        = mset (map Fulfilled rs) + mset (map outcome ex) + mset (map (\<lambda>x. snd (fn x)) (item # items))"
      by (simp add: ac_simps)
    with r step show ?thesis by simp
  qed
qed


subsection \<open>Claims about checkUrl, normalizeUrl, asyncPool and the crawl\<close>

text \<open>
  Claim C3. If, with \<open>followRedirects\<close> enabled, the check meets more than 10 redirect
  hops (the first 11 requests are each answered by a redirect that it follows), then
  \<open>checkUrl\<close> returns a result with \<open>statusCode\<close> none and \<open>error\<close>
  \<open>Too many redirects\<close>. It returns a result on every path: the errors of the request
  and of the resolution of the \<open>location\<close> are branches of \<open>checkLoop\<close>.
\<close>

theorem checkUrl_too_many_redirects:
  assumes "redirectHops fetch resolve timeout 0 u n" and "n > 10"
  shows "statusCode (checkUrl fetch resolve u timeout True) = None \<and>
         error (checkUrl fetch resolve u timeout True) = Some ''Too many redirects''"
proof -
  have "redirectHops fetch resolve timeout 0 u 11"
    using assms(2) by (intro redirectHops_mono[OF assms(1)]) simp
  then show ?thesis
    unfolding checkUrl_def using redirectHops_too_many[of fetch resolve timeout 0 u 11 10 "[]"]
    by simp
qed

text \<open>Witness for C3: a server that redirects every request once more.\<close>

theorem checkUrl_too_many_redirects_witness:
  "redirectHops endlessRedirects absoluteLocation 15000 0 ''https://e.com/a'' 11
   \<and> (11 :: nat) > 10
   \<and> statusCode (checkUrl endlessRedirects absoluteLocation ''https://e.com/a'' 15000 True) = None
   \<and> error (checkUrl endlessRedirects absoluteLocation ''https://e.com/a'' 15000 True)
       = Some ''Too many redirects''"
proof -
  have h1: "redirectHops endlessRedirects absoluteLocation 15000 0 ''https://e.com/a'' 11"
    by code_simp
  have h2: "(11 :: nat) > 10" by simp
  show ?thesis
    using h1 h2 checkUrl_too_many_redirects[OF h1 h2] by simp
qed




text \<open>
  Claim C5, as amended. When every unit of work fulfils, \<open>asyncPool\<close> returns the results
  of the items, one for each item. When the unit of work of at least one item rejects,
  \<open>asyncPool\<close> does not return results: the promise it returns rejects with the error of
  one of the rejecting items.
\<close>

theorem asyncPool_all_or_nothing:
  "((\<forall>x \<in> set items. isFulfilled (snd (fn x))) \<longrightarrow>
      (\<exists>out. asyncPool items c fn = Inr out
            \<and> mset (map Fulfilled out) = mset (map (\<lambda>x. snd (fn x)) items)))
   \<and> ((\<exists>x \<in> set items. \<not> isFulfilled (snd (fn x))) \<longrightarrow>
      (\<exists>e. asyncPool items c fn = Inl e \<and> (\<exists>x \<in> set items. snd (fn x) = Rejected e)))"
proof (intro conjI impI)
  assume "\<forall>x \<in> set items. isFulfilled (snd (fn x))"
  then show "\<exists>out. asyncPool items c fn = Inr out
            \<and> mset (map Fulfilled out) = mset (map (\<lambda>x. snd (fn x)) items)"
    using poolLoop_returns[of "[]" items fn c 0 "[]"] by (simp add: asyncPool_def)
next
  assume "\<exists>x \<in> set items. \<not> isFulfilled (snd (fn x))"
  then show "\<exists>e. asyncPool items c fn = Inl e \<and> (\<exists>x \<in> set items. snd (fn x) = Rejected e)"
    using poolLoop_rejects[of "[]" items fn c 0 "[]"] by (simp add: asyncPool_def)
qed

text \<open>
  Witness for C5: three items with two in flight. All fulfil: the results come in the
  order of completion. The last item rejects: the pool rejects.
\<close>

theorem asyncPool_all_or_nothing_witness:
  "asyncPool [3, 1, 2] 2 tenfold = Inr [10, 30, 20]
   \<and> mset (map Fulfilled [10, 30, 20]) = mset (map (\<lambda>x. snd (tenfold x)) [3, 1, 2])
   \<and> asyncPool [3, 2, 1] 2 failsOnOne = Inl ''boom''"
proof -
  have a: "asyncPool [3, 1, 2] 2 tenfold = Inr [10, 30, 20]" by code_simp
  have b: "asyncPool [3, 2, 1] 2 failsOnOne = Inl ''boom''" by code_simp
  have h1: "\<forall>x \<in> set [3, 1, 2]. isFulfilled (snd (tenfold x))"
    by (simp add: tenfold_def)
  have h2: "\<exists>x \<in> set [3, 2, 1]. \<not> isFulfilled (snd (failsOnOne x))"
    by (simp add: failsOnOne_def)
  from asyncPool_all_or_nothing[of "[3, 1, 2]" tenfold 2] h1 a
  have "mset (map Fulfilled [10, 30, 20]) = mset (map (\<lambda>x. snd (tenfold x)) [3, 1, 2])"
    by simp
  moreover from asyncPool_all_or_nothing[of "[3, 2, 1]" failsOnOne 2] h2 b
  have "asyncPool [3, 2, 1] 2 failsOnOne = Inl ''boom''" by simp
  ultimately show ?thesis using a by simp
qed

text \<open>
  Counterexample to C5 as stated: with one item in flight at a time, the rejection of the
  first unit of work rejects the pool; no result is returned for any of the three items.
\<close>

theorem asyncPool_rejection_aborts:
  "asyncPool [1, 2, 3] 1 failsOnOne = Inl ''boom''"
  by code_simp




end
